theory Spec2Isabelle
  imports Complex_Main "HOL-Library.Multiset" "HOL-Library.Product_Lexorder"
begin

section \<open>Retrieval kernel of the RAG notebooks: data model\<close>

text \<open>
  The notebooks are Python. The exceptions that the modelled functions can raise are
  \<^verbatim>\<open>ValueError\<close> (a zero \<^verbatim>\<open>range\<close> step, an unknown breakpoint method, a percentile
  outside 0..100, \<^verbatim>\<open>np.dot\<close> on vectors of different length) and \<^verbatim>\<open>IndexError\<close>
  (a list index out of range). A function that can raise returns \<open>error + 'a\<close>.
\<close>

datatype error = ValueError | IndexError

subsection \<open>Python slices, ranges and list access\<close>

text \<open>
  A slice bound \<open>i\<close> on a sequence of length \<open>n\<close>: a negative bound counts from the
  end, and every bound is clamped into \<open>0..n\<close>.
\<close>

definition slice_index :: "int \<Rightarrow> nat \<Rightarrow> nat" where
  "slice_index i n = (if i < 0 then nat (max 0 (int n + i)) else min (nat i) n)"

definition py_slice :: "'a list \<Rightarrow> int \<Rightarrow> int \<Rightarrow> 'a list" where
  \<comment> \<open>\<^verbatim>\<open>xs[a:b]\<close>\<close>
  "py_slice xs a b =
     (let lo = slice_index a (length xs); hi = slice_index b (length xs)
      in take (hi - lo) (drop lo xs))"

definition py_slice_from :: "'a list \<Rightarrow> int \<Rightarrow> 'a list" where
  \<comment> \<open>\<^verbatim>\<open>xs[a:]\<close>\<close>
  "py_slice_from xs a = drop (slice_index a (length xs)) xs"

definition py_slice_to :: "'a list \<Rightarrow> int \<Rightarrow> 'a list" where
  \<comment> \<open>\<^verbatim>\<open>xs[:b]\<close>\<close>
  "py_slice_to xs b = take (slice_index b (length xs)) xs"

text \<open>
  \<^verbatim>\<open>range(start, stop, step)\<close>: a zero step raises ValueError, a positive step counts
  up while below \<open>stop\<close>, a negative step counts down while above \<open>stop\<close>.
\<close>

function range_up :: "int \<Rightarrow> int \<Rightarrow> int \<Rightarrow> int list" where
  "range_up i stop step =
     (if 0 < step \<and> i < stop then i # range_up (i + step) stop step else [])"
  by pat_completeness auto
termination
  by (relation "measure (\<lambda>(i, stop, step). nat (stop - i))") auto

function range_down :: "int \<Rightarrow> int \<Rightarrow> int \<Rightarrow> int list" where
  "range_down i stop step =
     (if step < 0 \<and> stop < i then i # range_down (i + step) stop step else [])"
  by pat_completeness auto
termination
  by (relation "measure (\<lambda>(i, stop, step). nat (i - stop))") auto

declare range_up.simps [simp del] range_down.simps [simp del]

definition py_range :: "int \<Rightarrow> int \<Rightarrow> int \<Rightarrow> error + int list" where
  "py_range start stop step =
     (if step = 0 then Inl ValueError
      else if 0 < step then Inr (range_up start stop step)
      else Inr (range_down start stop step))"

text \<open>\<^verbatim>\<open>xs[i]\<close> for an index that is never negative (it comes from an enumeration).\<close>

definition py_get :: "'a list \<Rightarrow> nat \<Rightarrow> error + 'a" where
  "py_get xs i = (if i < length xs then Inr (xs ! i) else Inl IndexError)"

text \<open>
  A comprehension or loop whose body can raise: the first exception ends it.
\<close>

fun collect :: "(error + 'a) list \<Rightarrow> error + 'a list" where
  "collect [] = Inr []"
| "collect (r # rs) =
     (case r of
        Inl e \<Rightarrow> Inl e
      | Inr x \<Rightarrow> (case collect rs of Inl e \<Rightarrow> Inl e | Inr xs \<Rightarrow> Inr (x # xs)))"

subsection \<open>Segmenter: fixed windows with overlap\<close>

text \<open>
  \<^verbatim>\<open>chunk_text(text, n, overlap)\<close>, the same code in the notebooks 01 and 03:
  \<^verbatim>\<open>
  chunks = []
  for i in range(0, len(text), n - overlap):
      chunks.append(text[i:i + n])
  return chunks
  \<close>
  A \<open>char\<close> of the model stands for one character of the Python string.
\<close>

definition chunk_text :: "string \<Rightarrow> int \<Rightarrow> int \<Rightarrow> error + string list" where
  "chunk_text text n overlap =
     (case py_range 0 (int (length text)) (n - overlap) of
        Inl e \<Rightarrow> Inl e
      | Inr offsets \<Rightarrow> Inr (map (\<lambda>i. py_slice text i (i + n)) offsets))"

text \<open>
  The reconstruction that the specification describes for the round trip: the windows
  concatenated in order, each window after the first without its leading \<open>overlap\<close>
  characters.
\<close>

definition concat_overlap_removed :: "nat \<Rightarrow> string list \<Rightarrow> string" where
  "concat_overlap_removed overlap ws =
     (case ws of [] \<Rightarrow> [] | w # rest \<Rightarrow> w @ concat (map (drop overlap) rest))"

subsection \<open>Floats\<close>

text \<open>
  A float64 value is a real number, an infinity or nan. Which real numbers are floats,
  and how an operation rounds its result, is not fixed here: the arithmetic belongs to
  the library below. Zero is one value; its sign shows only in a division by zero, and
  every divisor in the notebooks is a product of norms or the constant 2.
\<close>

datatype fval = Num real | PInf | NInf | NaN

text \<open>Python's \<^verbatim>\<open><\<close> and \<^verbatim>\<open><=\<close> on floats: every comparison with nan is false.\<close>

fun py_lt :: "fval \<Rightarrow> fval \<Rightarrow> bool" where
  "py_lt NaN _ = False"
| "py_lt _ NaN = False"
| "py_lt _ NInf = False"
| "py_lt NInf _ = True"
| "py_lt PInf _ = False"
| "py_lt _ PInf = True"
| "py_lt (Num a) (Num b) = (a < b)"

definition py_le :: "fval \<Rightarrow> fval \<Rightarrow> bool" where
  "py_le a b = (a \<noteq> NaN \<and> b \<noteq> NaN \<and> \<not> py_lt b a)"

text \<open>NumPy's sorting order on floats: as \<^verbatim>\<open><\<close>, with nan after every other value.\<close>

definition np_lt :: "fval \<Rightarrow> fval \<Rightarrow> bool" where
  "np_lt a b = (a \<noteq> NaN \<and> (b = NaN \<or> py_lt a b))"

text \<open>
  The position of a float in NumPy's sorting order, as a pair in lexicographic order:
  the order of the floats that are not nan is a linear order.
\<close>

fun rank :: "fval \<Rightarrow> int \<times> real" where
  "rank NInf = (- 1, 0)"
| "rank (Num r) = (0, r)"
| "rank PInf = (1, 0)"
| "rank NaN = (2, 0)"

subsection \<open>The library functions that the notebooks call\<close>

text \<open>
  The notebooks compute with NumPy and with Python's built-in floats and
  \<^verbatim>\<open>list.sort\<close>. These are not code of the repository, so the functions of the
  repository take them as a parameter:
  \<^item> \<open>np_dot\<close> and \<open>np_linalg_norm\<close>, on vectors of finite floats (\<open>np_dot\<close> on two
    vectors of the same length; the ValueError for different lengths is written out in
    \<open>cosine_similarity\<close>);
  \<^item> \<open>fl_add\<close>, \<open>fl_sub\<close>, \<open>fl_mul\<close>, \<open>fl_div\<close>, the arithmetic of two floats;
  \<^item> \<open>np_percentile\<close>, \<open>np_mean\<close> and \<open>np_std\<close>;
  \<^item> \<open>np_argsort\<close>, the indices of an array in the order NumPy sorts them;
  \<^item> \<open>list_sort\<close>, the order in which \<^verbatim>\<open>list.sort(key=..., reverse=...)\<close> arranges the
    positions of a list, given the \<open>reverse\<close> flag and the keys of its elements (the sort
    sees the elements only through comparisons of their keys).
\<close>

record library =
  np_dot :: "real list \<Rightarrow> real list \<Rightarrow> fval"
  np_linalg_norm :: "real list \<Rightarrow> fval"
  fl_add :: "fval \<Rightarrow> fval \<Rightarrow> fval"
  fl_sub :: "fval \<Rightarrow> fval \<Rightarrow> fval"
  fl_mul :: "fval \<Rightarrow> fval \<Rightarrow> fval"
  fl_div :: "fval \<Rightarrow> fval \<Rightarrow> fval"
  np_percentile :: "fval list \<Rightarrow> real \<Rightarrow> error + fval"
  np_mean :: "fval list \<Rightarrow> fval"
  np_std :: "fval list \<Rightarrow> fval"
  np_argsort :: "fval list \<Rightarrow> nat list"
  list_sort :: "bool \<Rightarrow> fval list \<Rightarrow> nat list"

text \<open>
  What the documentation of the two sorts promises. Both return a permutation of the
  positions. Python's sort is stable, and with \<^verbatim>\<open>reverse=True\<close> it keeps equal keys in
  their original order too; when no key is nan the keys are linearly ordered and the
  result is descending. NumPy's argsort is ascending with nan last, and its default
  kind promises no order among equal values.
\<close>

definition sort_contract :: "library \<Rightarrow> bool" where
  "sort_contract L \<longleftrightarrow>
     (\<forall>reverse keys. mset (list_sort L reverse keys) = mset [0..<length keys]) \<and>
     (\<forall>keys. NaN \<notin> set keys \<longrightarrow>
        sorted_wrt (\<lambda>i j. py_le (keys ! j) (keys ! i) \<and> (keys ! i = keys ! j \<longrightarrow> i < j))
          (list_sort L True keys))"

definition argsort_contract :: "library \<Rightarrow> bool" where
  "argsort_contract L \<longleftrightarrow>
     (\<forall>a. mset (np_argsort L a) = mset [0..<length a] \<and>
          sorted_wrt (\<lambda>i j. \<not> np_lt (a ! j) (a ! i)) (np_argsort L a))"

text \<open>
  What IEEE arithmetic gives at zero, with no rounding involved: a dot product with a
  zero vector and the norm of a zero vector are zero, zero times a float is zero or nan,
  a division by zero is nan or an infinity, \<open>0 / 0\<close> is nan, and a division by nan is nan.
\<close>

definition zero_contract :: "library \<Rightarrow> bool" where
  "zero_contract L \<longleftrightarrow>
     (\<forall>v w. set v \<subseteq> {0} \<and> length v = length w \<longrightarrow> np_dot L v w = Num 0 \<and> np_dot L w v = Num 0) \<and>
     (\<forall>v. set v \<subseteq> {0} \<longrightarrow> np_linalg_norm L v = Num 0) \<and>
     (\<forall>x. fl_mul L (Num 0) x \<in> {Num 0, NaN} \<and> fl_mul L x (Num 0) \<in> {Num 0, NaN}) \<and>
     (\<forall>d. fl_div L d (Num 0) \<in> {NaN, PInf, NInf}) \<and>
     fl_div L (Num 0) (Num 0) = NaN \<and>
     (\<forall>d. fl_div L d NaN = NaN)"


subsection \<open>Two libraries: exact arithmetic and IEEE binary64\<close>

text \<open>
  The theorems below hold for every library that keeps the contracts. Two libraries are
  defined to evaluate the functions on concrete inputs: \<open>reference\<close>, whose arithmetic
  is exact, and \<open>ieee\<close>, whose arithmetic rounds every result to binary64. Both sum a
  dot product from left to right and sort by stable insertion; NumPy's own summation
  order and sorting algorithm are not claimed: on keys that hold nan, and for
  \<^verbatim>\<open>np.argsort\<close> on equal keys, CPython and NumPy may order a longer list otherwise
  than a stable insertion sort does. No theorem depends on that order, and the
  evaluations below that meet such keys use lists of two elements. The special values
  follow IEEE 754.
\<close>

fun exact_neg :: "fval \<Rightarrow> fval" where
  "exact_neg (Num a) = Num (- a)"
| "exact_neg PInf = NInf"
| "exact_neg NInf = PInf"
| "exact_neg NaN = NaN"

fun exact_add :: "fval \<Rightarrow> fval \<Rightarrow> fval" where
  "exact_add NaN _ = NaN"
| "exact_add _ NaN = NaN"
| "exact_add (Num a) (Num b) = Num (a + b)"
| "exact_add PInf NInf = NaN"
| "exact_add NInf PInf = NaN"
| "exact_add PInf _ = PInf"
| "exact_add _ PInf = PInf"
| "exact_add NInf _ = NInf"
| "exact_add _ NInf = NInf"

definition exact_sub :: "fval \<Rightarrow> fval \<Rightarrow> fval" where
  "exact_sub a b = exact_add a (exact_neg b)"

text \<open>The sign of a float that is not nan: \<open>-1\<close>, \<open>0\<close> or \<open>1\<close>.\<close>

fun fsign :: "fval \<Rightarrow> real" where
  "fsign (Num a) = sgn a"
| "fsign PInf = 1"
| "fsign NInf = - 1"
| "fsign NaN = 0"

definition signed_inf :: "real \<Rightarrow> fval" where
  "signed_inf s = (if s = 0 then NaN else if 0 < s then PInf else NInf)"

fun exact_mul :: "fval \<Rightarrow> fval \<Rightarrow> fval" where
  "exact_mul NaN _ = NaN"
| "exact_mul _ NaN = NaN"
| "exact_mul (Num a) (Num b) = Num (a * b)"
| "exact_mul a b = signed_inf (fsign a * fsign b)"

fun exact_div :: "fval \<Rightarrow> fval \<Rightarrow> fval" where
  "exact_div NaN _ = NaN"
| "exact_div _ NaN = NaN"
| "exact_div (Num a) (Num b) = (if b = 0 then signed_inf (sgn a) else Num (a / b))"
| "exact_div (Num a) _ = Num 0"
| "exact_div a (Num b) = signed_inf (fsign a * (if b < 0 then - 1 else 1))"
| "exact_div _ _ = NaN"

fun exact_sqrt :: "fval \<Rightarrow> fval" where
  "exact_sqrt (Num a) = (if a < 0 then NaN else Num (sqrt a))"
| "exact_sqrt PInf = PInf"
| "exact_sqrt NInf = NaN"
| "exact_sqrt NaN = NaN"

text \<open>
  A stable insertion sort that uses only a less-than test on the keys.
\<close>

fun insort_by :: "('k \<Rightarrow> 'k \<Rightarrow> bool) \<Rightarrow> ('a \<Rightarrow> 'k) \<Rightarrow> 'a \<Rightarrow> 'a list \<Rightarrow> 'a list" where
  "insort_by lt key x [] = [x]"
| "insort_by lt key x (y # ys) =
     (if lt (key y) (key x) then y # insort_by lt key x ys else x # y # ys)"

definition stable_sort_by :: "('k \<Rightarrow> 'k \<Rightarrow> bool) \<Rightarrow> ('a \<Rightarrow> 'k) \<Rightarrow> 'a list \<Rightarrow> 'a list" where
  "stable_sort_by lt key xs = foldr (insort_by lt key) xs []"

text \<open>
  The functions of a library whose arithmetic rounds with \<open>rnd\<close>. The percentile is
  NumPy's default, the linear interpolation at the virtual index \<open>q / 100 * (n - 1)\<close> of
  the sorted data; the standard deviation is that of the population. A sort with
  \<^verbatim>\<open>reverse=True\<close> reverses the list, sorts it stably in ascending order and reverses the
  result, as CPython does.
\<close>

definition seq_dot :: "(fval \<Rightarrow> fval) \<Rightarrow> real list \<Rightarrow> real list \<Rightarrow> fval" where
  "seq_dot rnd v w =
     foldl (\<lambda>acc (x, y). rnd (exact_add acc (rnd (exact_mul (Num x) (Num y))))) (Num 0) (zip v w)"

definition linear_percentile :: "(fval \<Rightarrow> fval) \<Rightarrow> fval list \<Rightarrow> real \<Rightarrow> error + fval" where
  "linear_percentile rnd a q =
     (if q < 0 \<or> 100 < q then Inl ValueError
      else if a = [] then Inl IndexError
      else if NaN \<in> set a then Inr NaN
      else
        (let srt = stable_sort_by np_lt (\<lambda>x. x) a;
             n = length srt;
             pos = q / 100 * real (n - 1);
             lo = nat \<lfloor>pos\<rfloor>;
             hi = min (lo + 1) (n - 1);
             g = pos - real lo
         in Inr (rnd (exact_add (srt ! lo)
                   (rnd (exact_mul (Num g) (rnd (exact_sub (srt ! hi) (srt ! lo)))))))))"

definition seq_mean :: "(fval \<Rightarrow> fval) \<Rightarrow> fval list \<Rightarrow> fval" where
  "seq_mean rnd a =
     rnd (exact_div (foldl (\<lambda>s x. rnd (exact_add s x)) (Num 0) a) (Num (real (length a))))"

definition seq_std :: "(fval \<Rightarrow> fval) \<Rightarrow> fval list \<Rightarrow> fval" where
  "seq_std rnd a =
     (let m = seq_mean rnd a;
          dev = (\<lambda>x. rnd (exact_sub x m))
      in rnd (exact_sqrt (seq_mean rnd (map (\<lambda>x. rnd (exact_mul (dev x) (dev x))) a))))"

definition insertion_argsort :: "fval list \<Rightarrow> nat list" where
  "insertion_argsort a = stable_sort_by np_lt (\<lambda>i. a ! i) [0..<length a]"

definition insertion_sort_order :: "bool \<Rightarrow> fval list \<Rightarrow> nat list" where
  "insertion_sort_order reverse keys =
     (if reverse then rev (stable_sort_by py_lt (\<lambda>i. keys ! i) (rev [0..<length keys]))
      else stable_sort_by py_lt (\<lambda>i. keys ! i) [0..<length keys])"

definition make_library :: "(fval \<Rightarrow> fval) \<Rightarrow> library" where
  "make_library rnd =
     \<lparr>np_dot = seq_dot rnd,
      np_linalg_norm = (\<lambda>v. rnd (exact_sqrt (seq_dot rnd v v))),
      fl_add = (\<lambda>a b. rnd (exact_add a b)),
      fl_sub = (\<lambda>a b. rnd (exact_sub a b)),
      fl_mul = (\<lambda>a b. rnd (exact_mul a b)),
      fl_div = (\<lambda>a b. rnd (exact_div a b)),
      np_percentile = linear_percentile rnd,
      np_mean = seq_mean rnd,
      np_std = seq_std rnd,
      np_argsort = insertion_argsort,
      list_sort = insertion_sort_order\<rparr>"

definition reference :: library where
  "reference = make_library (\<lambda>x. x)"

text \<open>
  Rounding to binary64, to the nearest float with ties to the even mantissa: a real
  number with binary exponent \<open>e\<close> is rounded to a multiple of \<open>2 ^ (e - 52)\<close>, in the
  subnormal range to a multiple of \<open>2 ^ (- 1074)\<close>, and a result that reaches
  \<open>2 ^ 1024\<close> overflows to an infinity.
\<close>

definition round_even :: "real \<Rightarrow> int" where
  "round_even y =
     (let f = \<lfloor>y\<rfloor>; d = y - real_of_int f
      in if d < 1 / 2 then f else if 1 / 2 < d then f + 1 else if even f then f else f + 1)"

definition binary64 :: "real \<Rightarrow> fval" where
  "binary64 x =
     (if x = 0 then Num 0
      else
        (let e = max \<lfloor>log 2 \<bar>x\<bar>\<rfloor> (- 1022);
             u = 2 powr real_of_int (e - 52);
             r = real_of_int (round_even (x / u)) * u
         in if 2 ^ 1024 \<le> \<bar>r\<bar> then (if 0 < x then PInf else NInf) else Num r))"

fun round64 :: "fval \<Rightarrow> fval" where
  "round64 (Num x) = binary64 x"
| "round64 a = a"

definition ieee :: library where
  "ieee = make_library round64"

subsection \<open>Similarity engine\<close>

text \<open>
  \<^verbatim>\<open>cosine_similarity(vec1, vec2)\<close>, the same one-line body in every notebook:
  \<^verbatim>\<open>return np.dot(vec1, vec2) / (np.linalg.norm(vec1) * np.linalg.norm(vec2))\<close>
  The source has no test on the norms. \<^verbatim>\<open>np.dot\<close> raises ValueError when the two
  vectors differ in length; the quotient of two NumPy floats raises nothing.
\<close>

definition cosine_value :: "library \<Rightarrow> real list \<Rightarrow> real list \<Rightarrow> fval" where
  "cosine_value L vec1 vec2 =
     fl_div L (np_dot L vec1 vec2) (fl_mul L (np_linalg_norm L vec1) (np_linalg_norm L vec2))"

definition cosine_similarity :: "library \<Rightarrow> real list \<Rightarrow> real list \<Rightarrow> error + fval" where
  "cosine_similarity L vec1 vec2 =
     (if length vec1 \<noteq> length vec2 then Inl ValueError
      else Inr (cosine_value L vec1 vec2))"

subsection \<open>Boundary selector\<close>



subsection \<open>Chunk assembler\<close>

text \<open>\<^verbatim>\<open>sep.join(parts)\<close>.\<close>

fun join :: "string \<Rightarrow> string list \<Rightarrow> string" where
  "join sep [] = []"
| "join sep [x] = x"
| "join sep (x # y # ys) = x @ sep @ join sep (y # ys)"

text \<open>
  \<^verbatim>\<open>split_into_chunks(sentences, breakpoints)\<close>:
  \<^verbatim>\<open>
  chunks = []; start = 0
  for bp in breakpoints:
      chunks.append(". ".join(sentences[start:bp + 1]) + ".")
      start = bp + 1
  chunks.append(". ".join(sentences[start:]))
  return chunks
  \<close>
  The loop is the recursion \<open>split_loop\<close> over the breakpoints, carrying \<open>start\<close>.
\<close>

fun split_loop :: "string list \<Rightarrow> int \<Rightarrow> int list \<Rightarrow> string list" where
  "split_loop sentences start [] = [join ''. '' (py_slice_from sentences start)]"
| "split_loop sentences start (bp # bps) =
     (join ''. '' (py_slice sentences start (bp + 1)) @ ''.'')
       # split_loop sentences (bp + 1) bps"

definition split_into_chunks :: "string list \<Rightarrow> int list \<Rightarrow> string list" where
  "split_into_chunks sentences breakpoints = split_loop sentences 0 breakpoints"

text \<open>The first unit of the chunk that ends at the \<open>j\<close>-th breakpoint.\<close>

definition chunk_start :: "int list \<Rightarrow> nat \<Rightarrow> int" where
  "chunk_start breakpoints j = (if j = 0 then 0 else breakpoints ! (j - 1) + 1)"

subsection \<open>Retriever\<close>

text \<open>
  \<^verbatim>\<open>xs.sort(key=key, reverse=reverse)\<close>: the elements of \<open>xs\<close> in the order that the
  library's sort gives to their positions.
\<close>

definition py_list_sort :: "library \<Rightarrow> ('a \<Rightarrow> fval) \<Rightarrow> bool \<Rightarrow> 'a list \<Rightarrow> 'a list" where
  "py_list_sort L key reverse xs = map ((!) xs) (list_sort L reverse (map key xs))"

text \<open>The similarity of the query embedding to each chunk embedding, in chunk order.\<close>

definition similarities_of :: "library \<Rightarrow> real list \<Rightarrow> real list list \<Rightarrow> error + fval list" where
  "similarities_of L query_embedding embeddings =
     collect (map (cosine_similarity L query_embedding) embeddings)"

text \<open>
  \<^verbatim>\<open>semantic_search(query, text_chunks, embeddings, k)\<close> of notebook 01, the sort-based
  retriever. The embedding provider is the parameter \<open>create_embeddings\<close>.
  \<^verbatim>\<open>
  for i, chunk_embedding in enumerate(embeddings):
      similarity_scores.append((i, cosine_similarity(query_embedding, chunk_embedding)))
  similarity_scores.sort(key=lambda x: x[1], reverse=True)
  top_indices = [index for index, _ in similarity_scores[:k]]
  return [text_chunks[index] for index in top_indices]
  \<close>
\<close>

definition top_indices_sort :: "library \<Rightarrow> fval list \<Rightarrow> int \<Rightarrow> nat list" where
  "top_indices_sort L sims k =
     map fst (py_slice_to (py_list_sort L snd True (enumerate 0 sims)) k)"

definition semantic_search ::
  "library \<Rightarrow> (string \<Rightarrow> real list) \<Rightarrow> string \<Rightarrow> string list \<Rightarrow> real list list \<Rightarrow> int
     \<Rightarrow> error + string list" where
  "semantic_search L create_embeddings query text_chunks embeddings k =
     (case similarities_of L (create_embeddings query) embeddings of
        Inl e \<Rightarrow> Inl e
      | Inr sims \<Rightarrow> collect (map (py_get text_chunks) (top_indices_sort L sims k)))"

text \<open>
  The argsort-based retriever: \<^verbatim>\<open>semantic_search\<close> of the semantic-chunking notebook
  and, with the same body, \<^verbatim>\<open>retrieve_relevant_chunks\<close> of notebook 03.
  \<^verbatim>\<open>
  similarities = [cosine_similarity(query_embedding, emb) for emb in chunk_embeddings]
  top_indices = np.argsort(similarities)[-k:][::-1]
  return [text_chunks[i] for i in top_indices]
  \<close>
\<close>

definition top_indices_argsort :: "library \<Rightarrow> fval list \<Rightarrow> int \<Rightarrow> nat list" where
  "top_indices_argsort L sims k = rev (py_slice_from (np_argsort L sims) (- k))"

definition semantic_search_argsort ::
  "library \<Rightarrow> (string \<Rightarrow> real list) \<Rightarrow> string \<Rightarrow> string list \<Rightarrow> real list list \<Rightarrow> int
     \<Rightarrow> error + string list" where
  "semantic_search_argsort L get_embedding query text_chunks chunk_embeddings k =
     (case similarities_of L (get_embedding query) chunk_embeddings of
        Inl e \<Rightarrow> Inl e
      | Inr sims \<Rightarrow> collect (map (py_get text_chunks) (top_indices_argsort L sims k)))"






section \<open>Fixed-window segmenter\<close>

subsection \<open>Ranges and slices\<close>

lemma range_up_count:
  "0 < step \<Longrightarrow> length (range_up i stop step) = nat ((stop - i + step - 1) div step)"
proof (induction i stop step rule: range_up.induct)
  case (1 i stop step)
  show ?case
  proof (cases "i < stop")
    case True
    define d where "d = stop - i - 1"
    have A: "stop - i + step - 1 = d + step" by (simp add: d_def)
    have B: "stop - (i + step) + step - 1 = d" by (simp add: d_def)
    have C: "(d + step) div step = d div step + 1"
      using 1(2) by simp
    have D: "0 \<le> d div step"
      using True 1(2) by (simp add: d_def pos_imp_zdiv_nonneg_iff)
    have "length (range_up (i + step) stop step) = nat ((stop - (i + step) + step - 1) div step)"
      using 1 True by blast
    then have len: "length (range_up (i + step) stop step) = nat (d div step)"
      unfolding B .
    have unf: "range_up i stop step = i # range_up (i + step) stop step"
      using True 1(2) by (subst range_up.simps) simp
    show ?thesis
      unfolding unf A C using D len by (simp add: nat_add_distrib)
  next
    case False
    then have "stop - i + step - 1 \<le> step - 1" by simp
    then have "(stop - i + step - 1) div step \<le> (step - 1) div step"
      using 1(2) by (rule zdiv_mono1)
    then have "(stop - i + step - 1) div step \<le> 0"
      using 1(2) by simp
    with False show ?thesis by (subst range_up.simps) simp
  qed
qed

lemma range_up_nth:
  "0 < step \<Longrightarrow> j < length (range_up i stop step) \<Longrightarrow>
     range_up i stop step ! j = i + int j * step \<and> i + int j * step < stop"
proof (induction i stop step arbitrary: j rule: range_up.induct)
  case (1 i stop step)
  from 1(3) have lt: "i < stop" by (subst (asm) range_up.simps) (auto split: if_splits)
  have unf: "range_up i stop step = i # range_up (i + step) stop step"
    using lt 1(2) by (subst range_up.simps) simp
  show ?case
  proof (cases j)
    case 0
    with lt unf show ?thesis by simp
  next
    case (Suc j')
    with 1(3) unf have "j' < length (range_up (i + step) stop step)"
      by simp
    from 1(1)[OF _ 1(2) this] lt 1(2)
    have "range_up (i + step) stop step ! j' = i + step + int j' * step \<and> i + step + int j' * step < stop"
      by simp
    with Suc unf show ?thesis
      by (simp add: distrib_right add.assoc)
  qed
qed


lemma py_slice_window:
  assumes "0 \<le> a" "a \<le> b"
  shows "py_slice xs a b = take (nat (b - a)) (drop (nat a) xs)"
proof (cases "nat a \<le> length xs")
  case True
  have "take (min (nat b) (length xs) - nat a) (drop (nat a) xs) = take (nat b - nat a) (drop (nat a) xs)"
    by (rule nth_equalityI) (auto simp: min_def)
  moreover have "nat b - nat a = nat (b - a)"
    using assms by simp
  ultimately show ?thesis
    using assms True by (simp add: py_slice_def slice_index_def min_absorb1)
next
  case False
  then show ?thesis
    using assms by (simp add: py_slice_def slice_index_def)
qed

lemma py_slice_window_nat:
  "0 \<le> n \<Longrightarrow> py_slice xs (int k) (int k + n) = take (nat n) (drop k xs)"
  using py_slice_window[of "int k" "int k + n" xs] by simp

lemma chunk_text_pos_step:
  "overlap < n \<Longrightarrow>
     chunk_text text n overlap =
       Inr (map (\<lambda>i. py_slice text i (i + n)) (range_up 0 (int (length text)) (n - overlap)))"
  by (simp add: chunk_text_def py_range_def)

lemma chunk_text_neg_step: "n < overlap \<Longrightarrow> chunk_text text n overlap = Inr []"
  by (simp add: chunk_text_def py_range_def range_down.simps)

lemma chunk_text_zero_step: "chunk_text text n n = Inl ValueError"
  by (simp add: chunk_text_def py_range_def)

lemma concat_drop_windows:
  assumes "0 < step" "0 \<le> ov" "0 \<le> i"
  shows "concat (map (drop (nat ov)) (map (\<lambda>i. py_slice text i (i + (step + ov))) (range_up i (int (length text)) step)))
           = drop (nat i + nat ov) text"
  using assms
proof (induction i "int (length text)" step rule: range_up.induct)
  case (1 i step)
  show ?case
  proof (cases "i < int (length text)")
    case True
    have unf: "range_up i (int (length text)) step = i # range_up (i + step) (int (length text)) step"
      using True 1(2) by (subst range_up.simps) simp
    have IH: "concat (map (drop (nat ov)) (map (\<lambda>i. py_slice text i (i + (step + ov)))
                (range_up (i + step) (int (length text)) step))) = drop (nat (i + step) + nat ov) text"
      using 1 True by simp
    have w: "py_slice text i (i + (step + ov)) = take (nat (step + ov)) (drop (nat i) text)"
      using 1(2,3,4) py_slice_window[of i "i + (step + ov)" "text"] by simp
    have "drop (nat ov) (take (nat (step + ov)) (drop (nat i) text))
            = take (nat step) (drop (nat i + nat ov) text)"
      using 1(2,3,4) by (simp add: drop_take nat_add_distrib add.commute)
    moreover have "nat (i + step) + nat ov = nat step + (nat i + nat ov)"
      using 1(2,3,4) by (simp add: nat_add_distrib)
    moreover have "take (nat step) (drop (nat i + nat ov) text) @ drop (nat step + (nat i + nat ov)) text
                     = drop (nat i + nat ov) text"
      using append_take_drop_id[of "nat step" "drop (nat i + nat ov) text"] by simp
    ultimately show ?thesis
      unfolding unf using IH w by (simp add: ac_simps)
  next
    case False
    then have "range_up i (int (length text)) step = []"
      by (subst range_up.simps) simp
    with False show ?thesis by simp
  qed
qed


lemma range_up_covers:
  assumes "0 < step"
  shows "stop - i \<le> int (length (range_up i stop step)) * step"
proof -
  let ?a = "stop - i + step - 1"
  have m: "?a = ?a div step * step + ?a mod step" by simp
  have "?a mod step < step" using assms by simp
  with m have le: "stop - i \<le> ?a div step * step" by linarith
  show ?thesis
  proof (cases "0 \<le> ?a div step")
    case True
    then show ?thesis using le assms by (simp add: range_up_count)
  next
    case False
    then have "?a div step * step \<le> 0"
      using assms by (simp add: mult_le_0_iff)
    with le False show ?thesis using assms by (simp add: range_up_count)
  qed
qed

lemma chunk_text_nth:
  assumes "0 \<le> overlap" "overlap < n"
    and "chunk_text text n overlap = Inr ws" "j < length ws"
  shows "j * nat (n - overlap) < length text"
    and "ws ! j = py_slice text (int j * (n - overlap)) (int j * (n - overlap) + n)"
    and "ws ! j = take (nat n) (drop (j * nat (n - overlap)) text)"
proof -
  obtain s where s: "n - overlap = int s" "0 < s"
    using assms(2) zero_less_imp_eq_int[of "n - overlap"] by auto
  let ?r = "range_up 0 (int (length text)) (int s)"
  have ws: "ws = map (\<lambda>i. py_slice text i (i + n)) ?r"
    using assms(2,3) s by (simp add: chunk_text_pos_step)
  have j: "j < length ?r" using assms(4) ws by simp
  have step: "0 < int s" using s by simp
  from range_up_nth[OF step j]
  have rj: "?r ! j = int (j * s)" and lt: "int (j * s) < int (length text)" by simp_all
  from lt have "j * s < length text" by (simp only: of_nat_less_iff)
  then show "j * nat (n - overlap) < length text"
    using s by simp
  have wj: "ws ! j = py_slice text (int (j * s)) (int (j * s) + n)"
    using ws j rj by simp
  then show "ws ! j = py_slice text (int j * (n - overlap)) (int j * (n - overlap) + n)"
    using s by simp
  have "py_slice text (int (j * s)) (int (j * s) + n) = take (nat n) (drop (j * s) text)"
    using assms(1,2) by (intro py_slice_window_nat) simp
  with wj show "ws ! j = take (nat n) (drop (j * nat (n - overlap)) text)"
    using s by simp
qed

subsection \<open>The windows of \<open>chunk_text\<close>\<close>

text \<open>
  C4, as the code has it. For \<open>0 \<le> overlap < n\<close>, \<open>chunk_text\<close> returns the windows at the
  offsets \<open>0, step, 2 * step, \<dots>\<close> below the length of the text, \<open>step = n - overlap\<close>;
  the window at offset \<open>o\<close> is \<open>text[o : o + n]\<close> and has \<open>min n (len - o)\<close> characters,
  so every window that starts within the last \<open>n - 1\<close> characters is shorter than \<open>n\<close>,
  not only the final one. \<open>chunk_text("abcdefghij", 4, 1)\<close> is
  \<open>["abcd", "defg", "ghij", "j"]\<close>.
\<close>

theorem chunk_text_windows:
  assumes "0 \<le> overlap" "overlap < n"
  shows "(\<exists>ws. chunk_text text n overlap = Inr ws \<and>
            (\<forall>j < length ws.
               j * nat (n - overlap) < length text \<and>
               ws ! j = py_slice text (int j * (n - overlap)) (int j * (n - overlap) + n) \<and>
               length (ws ! j) = min (nat n) (length text - j * nat (n - overlap))) \<and>
            length text \<le> length ws * nat (n - overlap)) \<and>
         chunk_text ''abcdefghij'' 4 1 = Inr [''abcd'', ''defg'', ''ghij'', ''j'']"
proof -
  let ?step = "n - overlap"
  let ?r = "range_up 0 (int (length text)) ?step"
  define ws where "ws = map (\<lambda>i. py_slice text i (i + n)) ?r"
  have step: "0 < ?step" using assms(2) by simp
  have res: "chunk_text text n overlap = Inr ws"
    using assms(2) by (simp add: chunk_text_pos_step ws_def)
  have win: "j * nat ?step < length text \<and>
             ws ! j = py_slice text (int j * ?step) (int j * ?step + n) \<and>
             length (ws ! j) = min (nat n) (length text - j * nat ?step)" if j: "j < length ws" for j
  proof -
    have "length (ws ! j) = min (nat n) (length text - j * nat ?step)"
      using chunk_text_nth(3)[OF assms res j] by simp
    with chunk_text_nth(1,2)[OF assms res j] show ?thesis by blast
  qed
  have "int (length text) - 0 \<le> int (length ?r) * ?step"
    using step by (rule range_up_covers)
  then have "int (length text) \<le> int (length ws * nat ?step)"
    using step by (simp add: ws_def)
  then have cover: "length text \<le> length ws * nat ?step"
    by (simp only: of_nat_le_iff)
  have ex: "chunk_text ''abcdefghij'' 4 1 = Inr [''abcd'', ''defg'', ''ghij'', ''j'']"
    by (simp add: chunk_text_def py_range_def range_up.simps py_slice_def slice_index_def)
  from res win cover ex show ?thesis by blast
qed

theorem chunk_text_windows_witness:
  "(0::int) \<le> 2 \<and> (2::int) < 3 \<and> chunk_text ''abcde'' 3 2 = Inr [''abc'', ''bcd'', ''cde'', ''de'', ''e'']"
proof -
  from chunk_text_windows[of 2 3 "''abcde''"]
  obtain ws where ws: "chunk_text ''abcde'' 3 2 = Inr ws" by auto
  then show ?thesis
    by (simp add: chunk_text_def py_range_def range_up.simps py_slice_def slice_index_def)
qed


text \<open>
  With \<open>n = 3\<close> and \<open>overlap = 2\<close> the text \<open>"abcde"\<close> has two short windows, \<open>"de"\<close>
  and \<open>"e"\<close>: a window before the final one is shorter than \<open>n\<close>.
\<close>

theorem chunk_text_short_window_counterexample:
  "chunk_text ''abcde'' 3 2 = Inr [''abc'', ''bcd'', ''cde'', ''de'', ''e''] \<and>
   \<not> list_all (\<lambda>w. length w = 3) (butlast [''abc'', ''bcd'', ''cde'', ''de'', ''e''])"
  by (simp add: chunk_text_def py_range_def range_up.simps py_slice_def slice_index_def)

subsection \<open>Invalid window parameters\<close>

text \<open>
  C6, as the code has it. \<open>chunk_text\<close> does not validate its parameters: it fails exactly
  when \<open>overlap = n\<close>, with the ValueError of a zero \<open>range\<close> step, and for every other
  pair of parameters (also \<open>overlap > n\<close> and \<open>n \<le> 0\<close>) it returns a list of chunks.
\<close>

theorem chunk_text_fails_iff:
  "(chunk_text text n overlap = Inl e) = (overlap = n \<and> e = ValueError) \<and>
   (\<exists>ws. chunk_text text n overlap = Inr ws) = (overlap \<noteq> n)"
  by (auto simp: chunk_text_def py_range_def)

theorem chunk_text_fails_iff_witness:
  "chunk_text ''abcd'' 3 3 = Inl ValueError \<and> (\<exists>ws. chunk_text ''abcd'' 3 1 = Inr ws)"
  using chunk_text_fails_iff[of "''abcd''" 3 3 ValueError] chunk_text_fails_iff[of "''abcd''" 3 1 ValueError]
  by simp

text \<open>
  An overlap above the window size, and a window size of zero, both return a list.
\<close>

theorem chunk_text_invalid_config_counterexample:
  "chunk_text ''abcdef'' 2 5 = Inr [] \<and> chunk_text ''ab'' 0 (- 1) = Inr [ [], [] ]"
  by (simp add: chunk_text_def py_range_def range_up.simps range_down.simps py_slice_def
      slice_index_def)

text \<open>
  C10. For every text and every \<open>n \<ge> 1\<close>: with \<open>overlap > n\<close> the result is the empty
  list and nothing is raised; with \<open>overlap = n\<close> the call raises the ValueError of
  \<open>range\<close>.
\<close>

theorem chunk_text_overlap_not_below_n:
  "1 \<le> n \<Longrightarrow>
     (n < overlap \<longrightarrow> chunk_text text n overlap = Inr []) \<and>
     (overlap = n \<longrightarrow> chunk_text text n overlap = Inl ValueError)"
  by (simp add: chunk_text_neg_step chunk_text_zero_step)

theorem chunk_text_overlap_not_below_n_witness:
  "(1::int) \<le> 4 \<and> (4::int) < 6 \<and> chunk_text ''abcdefgh'' 4 6 = Inr [] \<and>
   chunk_text ''abcdefgh'' 4 4 = Inl ValueError"
  using chunk_text_overlap_not_below_n[of 4 6 "''abcdefgh''"]
    chunk_text_overlap_not_below_n[of 4 4 "''abcdefgh''"]
  by simp

subsection \<open>Window count and round trip\<close>

lemma range_up_ceiling:
  assumes "0 < step" "i \<le> stop"
  shows "int (length (range_up i stop step)) = \<lceil>real_of_int (stop - i) / real_of_int step\<rceil>"
proof -
  let ?m = "int (length (range_up i stop step))"
  have up: "stop - i \<le> ?m * step" using assms(1) by (rule range_up_covers)
  have lo: "(?m - 1) * step < stop - i"
  proof (cases "length (range_up i stop step)")
    case 0
    then show ?thesis using assms by simp
  next
    case (Suc k)
    then have "k < length (range_up i stop step)" by simp
    from range_up_nth[OF assms(1) this] have "i + int k * step < stop" by simp
    with Suc show ?thesis by simp
  qed
  have "real_of_int ((?m - 1) * step) < real_of_int (stop - i)"
    using lo by (simp only: of_int_less_iff)
  then have "real_of_int (?m - 1) * real_of_int step < real_of_int (stop - i)"
    by (simp only: of_int_mult)
  then have A: "real_of_int (?m - 1) < real_of_int (stop - i) / real_of_int step"
    using assms(1) by (simp only: pos_less_divide_eq of_int_0_less_iff)
  have "real_of_int (stop - i) \<le> real_of_int (?m * step)"
    using up by (simp only: of_int_le_iff)
  then have "real_of_int (stop - i) \<le> real_of_int ?m * real_of_int step"
    by (simp only: of_int_mult)
  then have B: "real_of_int (stop - i) / real_of_int step \<le> real_of_int ?m"
    using assms(1) by (simp only: pos_divide_le_eq of_int_0_less_iff)
  have "\<lceil>real_of_int (stop - i) / real_of_int step\<rceil> = ?m"
    using A B by (intro ceiling_unique) simp_all
  then show ?thesis by simp
qed

text \<open>
  C8. For every text and all parameters with \<open>n > overlap > 0\<close>, the number of windows
  of \<open>chunk_text\<close> is \<open>ceil(len(text) / (n - overlap))\<close> (exactly, and so within one of
  it), and the windows, concatenated in order with the leading \<open>overlap\<close> characters of
  every window after the first removed, give back the text.
\<close>

theorem chunk_text_count_and_round_trip:
  assumes "0 < overlap" "overlap < n"
  shows "\<exists>ws. chunk_text text n overlap = Inr ws \<and>
           int (length ws) = \<lceil>real (length text) / real_of_int (n - overlap)\<rceil> \<and>
           \<bar>int (length ws) - \<lceil>real (length text) / real_of_int (n - overlap)\<rceil>\<bar> \<le> 1 \<and>
           concat_overlap_removed (nat overlap) ws = text"
proof -
  let ?step = "n - overlap"
  let ?L = "int (length text)"
  define ws where "ws = map (\<lambda>i. py_slice text i (i + n)) (range_up 0 ?L ?step)"
  have step: "0 < ?step" using assms(2) by simp
  have res: "chunk_text text n overlap = Inr ws"
    using assms(2) by (simp add: chunk_text_pos_step ws_def)
  have "int (length ws) = \<lceil>real_of_int (?L - 0) / real_of_int ?step\<rceil>"
    unfolding ws_def length_map using step by (intro range_up_ceiling) simp_all
  then have cnt: "int (length ws) = \<lceil>real (length text) / real_of_int ?step\<rceil>"
    by simp
  have rt: "concat_overlap_removed (nat overlap) ws = text"
  proof (cases "text = []")
    case True
    then have "range_up 0 ?L ?step = []" by (subst range_up.simps) simp
    with True show ?thesis by (simp add: ws_def concat_overlap_removed_def)
  next
    case False
    then have unf: "range_up 0 ?L ?step = 0 # range_up ?step ?L ?step"
      using step by (subst range_up.simps) simp
    have n: "n = ?step + overlap" by simp
    have tl: "concat (map (drop (nat overlap)) (map (\<lambda>i. py_slice text i (i + (?step + overlap)))
                (range_up ?step ?L ?step))) = drop (nat ?step + nat overlap) text"
      using step assms(1) by (intro concat_drop_windows) simp_all
    have hd: "py_slice text 0 (0 + n) = take (nat n) text"
      using assms py_slice_window_nat[where n = n and k = 0 and xs = "text"] by simp
    have "nat ?step + nat overlap = nat n" using assms by simp
    with tl hd show ?thesis
      unfolding ws_def unf concat_overlap_removed_def by simp
  qed
  from res cnt rt show ?thesis by simp
qed

theorem chunk_text_count_and_round_trip_witness:
  "(0::int) < 2 \<and> (2::int) < 5 \<and>
   chunk_text ''abcdefghijk'' 5 2 = Inr [''abcde'', ''defgh'', ''ghijk'', ''jk''] \<and>
   concat_overlap_removed 2 [''abcde'', ''defgh'', ''ghijk'', ''jk''] = ''abcdefghijk''"
  using chunk_text_count_and_round_trip[of 2 5 "''abcdefghijk''"]
  by (simp add: chunk_text_def py_range_def range_up.simps py_slice_def slice_index_def
      concat_overlap_removed_def)

section \<open>Chunk assembler\<close>

lemma take_drop_nths: "a + k \<le> length xs \<Longrightarrow> take k (drop a xs) = map ((!) xs) [a..<a + k]"
  by (rule nth_equalityI) (auto simp: add.commute)

lemma py_slice_units:
  assumes "0 \<le> a" "a \<le> b" "b < int (length xs)"
  shows "py_slice xs a (b + 1) = map ((!) xs) [nat a..<nat b + 1]"
proof -
  have "py_slice xs a (b + 1) = take (nat (b + 1 - a)) (drop (nat a) xs)"
    using assms by (intro py_slice_window) simp_all
  also have "\<dots> = map ((!) xs) [nat a..<nat a + nat (b + 1 - a)]"
    using assms by (intro take_drop_nths) linarith
  also have "nat a + nat (b + 1 - a) = nat b + 1"
    using assms by linarith
  finally show ?thesis .
qed

lemma py_slice_from_units:
  assumes "0 \<le> a"
  shows "py_slice_from xs a = map ((!) xs) [nat a..<length xs]"
proof (cases "nat a \<le> length xs")
  case True
  have "drop (nat a) xs = take (length xs - nat a) (drop (nat a) xs)" by simp
  also have "\<dots> = map ((!) xs) [nat a..<nat a + (length xs - nat a)]"
    using True by (intro take_drop_nths) simp
  finally show ?thesis
    using assms True by (simp add: py_slice_from_def slice_index_def min_absorb1)
next
  case False
  then show ?thesis using assms by (simp add: py_slice_from_def slice_index_def)
qed

lemma length_split_loop: "length (split_loop sentences start bps) = length bps + 1"
  by (induction bps arbitrary: start) simp_all

lemma split_loop_nth:
  assumes "0 \<le> start" "sorted_wrt (<) bps"
    and "\<forall>b \<in> set bps. start \<le> b \<and> b < int (length sentences)"
    and "j < length bps"
  shows "split_loop sentences start bps ! j =
           join ''. '' (map ((!) sentences)
             [nat (if j = 0 then start else bps ! (j - 1) + 1)..<nat (bps ! j) + 1]) @ ''.''"
  using assms
proof (induction bps arbitrary: start j)
  case Nil
  then show ?case by simp
next
  case (Cons b bps)
  show ?case
  proof (cases j)
    case 0
    have "py_slice sentences start (b + 1) = map ((!) sentences) [nat start..<nat b + 1]"
      using Cons.prems by (intro py_slice_units) simp_all
    with 0 show ?thesis by simp
  next
    case (Suc j')
    have "split_loop sentences (b + 1) bps ! j' =
            join ''. '' (map ((!) sentences)
              [nat (if j' = 0 then b + 1 else bps ! (j' - 1) + 1)..<nat (bps ! j') + 1]) @ ''.''"
      using Cons.prems Suc by (intro Cons.IH) auto
    with Suc show ?thesis by (cases j') simp_all
  qed
qed

lemma split_loop_last:
  assumes "0 \<le> start" "sorted_wrt (<) bps"
    and "\<forall>b \<in> set bps. start \<le> b \<and> b < int (length sentences)"
  shows "split_loop sentences start bps ! length bps =
           join ''. '' (map ((!) sentences)
             [nat (if bps = [] then start else bps ! (length bps - 1) + 1)..<length sentences])"
  using assms
proof (induction bps arbitrary: start)
  case Nil
  then show ?case by (simp add: py_slice_from_units)
next
  case (Cons b bps)
  have "split_loop sentences (b + 1) bps ! length bps =
          join ''. '' (map ((!) sentences)
            [nat (if bps = [] then b + 1 else bps ! (length bps - 1) + 1)..<length sentences])"
    using Cons.prems by (intro Cons.IH) auto
  then show ?case by (cases bps) simp_all
qed

text \<open>
  C3. \<open>split_into_chunks\<close> returns \<open>len(breakpoints) + 1\<close> chunks, so at least one, and
  the whole unit sequence joined as the single chunk when there is no breakpoint. For a
  strictly ascending list of breakpoints within the units, the chunk of the \<open>j\<close>-th
  breakpoint is made of the units from \<open>chunk_start\<close> (unit 0, or the unit after the
  previous breakpoint) up to and including the breakpoint's unit, and the final chunk of
  the units after the last breakpoint. The units \<open>['A', 'B', 'C', 'D.']\<close> with the
  breakpoints \<open>[1]\<close> give \<open>['A. B.', 'C. D.']\<close>.
\<close>

theorem split_into_chunks_spec:
  "length (split_into_chunks sentences breakpoints) = length breakpoints + 1 \<and>
   split_into_chunks sentences [] = [join ''. '' sentences] \<and>
   (sorted_wrt (<) breakpoints \<and> (\<forall>b \<in> set breakpoints. 0 \<le> b \<and> b < int (length sentences)) \<longrightarrow>
      (\<forall>j < length breakpoints.
         split_into_chunks sentences breakpoints ! j =
           join ''. '' (map ((!) sentences)
             [nat (chunk_start breakpoints j)..<nat (breakpoints ! j) + 1]) @ ''.'') \<and>
      split_into_chunks sentences breakpoints ! length breakpoints =
        join ''. '' (map ((!) sentences)
          [nat (chunk_start breakpoints (length breakpoints))..<length sentences])) \<and>
   split_into_chunks [''A'', ''B'', ''C'', ''D.''] [1] = [''A. B.'', ''C. D.'']"
proof -
  have len: "length (split_into_chunks sentences breakpoints) = length breakpoints + 1"
    by (simp add: split_into_chunks_def length_split_loop)
  have emp: "split_into_chunks sentences [] = [join ''. '' sentences]"
    by (simp add: split_into_chunks_def py_slice_from_def slice_index_def)
  have ex: "split_into_chunks [''A'', ''B'', ''C'', ''D.''] [1] = [''A. B.'', ''C. D.'']"
    by (simp add: split_into_chunks_def py_slice_def py_slice_from_def slice_index_def)
  have mid: "split_into_chunks sentences breakpoints ! j =
           join ''. '' (map ((!) sentences)
             [nat (chunk_start breakpoints j)..<nat (breakpoints ! j) + 1]) @ ''.''"
    if "sorted_wrt (<) breakpoints" "\<forall>b \<in> set breakpoints. 0 \<le> b \<and> b < int (length sentences)"
      "j < length breakpoints" for j
    using split_loop_nth[of 0 breakpoints sentences j] that
    by (simp add: split_into_chunks_def chunk_start_def)
  have fin: "split_into_chunks sentences breakpoints ! length breakpoints =
        join ''. '' (map ((!) sentences)
          [nat (chunk_start breakpoints (length breakpoints))..<length sentences])"
    if "sorted_wrt (<) breakpoints" "\<forall>b \<in> set breakpoints. 0 \<le> b \<and> b < int (length sentences)"
    using split_loop_last[of 0 breakpoints sentences] that
    by (simp add: split_into_chunks_def chunk_start_def)
  from len emp ex mid fin show ?thesis by blast
qed

theorem split_into_chunks_spec_witness:
  "sorted_wrt (<) [0, 2 :: int] \<and> list_all (\<lambda>b. 0 \<le> b \<and> b < 4) [0, 2 :: int] \<and>
   split_into_chunks [''a'', ''b'', ''c'', ''d''] [0, 2] = [''a.'', ''b. c.'', ''d'']"
  using split_into_chunks_spec[of "[''a'', ''b'', ''c'', ''d'']" "[0, 2]"]
  by (simp add: split_into_chunks_def py_slice_def py_slice_from_def slice_index_def)

section \<open>The libraries\<close>

subsection \<open>The order of the floats\<close>

lemma np_lt_rank: "np_lt a b \<longleftrightarrow> rank a < rank b"
  by (cases a; cases b) (simp_all add: np_lt_def)

lemma py_lt_rank: "a \<noteq> NaN \<Longrightarrow> b \<noteq> NaN \<Longrightarrow> py_lt a b \<longleftrightarrow> rank a < rank b"
  by (cases a; cases b) simp_all

lemma py_le_rank: "a \<noteq> NaN \<Longrightarrow> b \<noteq> NaN \<Longrightarrow> py_le a b \<longleftrightarrow> rank a \<le> rank b"
  by (cases a; cases b) (auto simp: py_le_def)

lemma rank_inj: "rank a = rank b \<Longrightarrow> a = b"
  by (cases a; cases b) simp_all

subsection \<open>Stable insertion sort\<close>

lemma mset_insort_by: "mset (insort_by lt key x ys) = add_mset x (mset ys)"
  by (induction ys) simp_all

lemma mset_stable_sort_by: "mset (stable_sort_by lt key xs) = mset xs"
  by (induction xs) (simp_all add: stable_sort_by_def mset_insort_by)

lemma insort_by_eq_insort_key:
  fixes g :: "'a \<Rightarrow> 'b::linorder"
  assumes "\<forall>y \<in> set ys. lt (key y) (key x) = (g y < g x)"
  shows "insort_by lt key x ys = insort_key g x ys"
  using assms by (induction ys) (auto simp: not_less)

lemma stable_sort_by_eq_sort_key:
  fixes g :: "'a \<Rightarrow> 'b::linorder"
  assumes "\<forall>y \<in> set xs. \<forall>x \<in> set xs. lt (key y) (key x) = (g y < g x)"
  shows "stable_sort_by lt key xs = sort_key g xs"
  using assms
proof (induction xs)
  case Nil
  then show ?case by (simp add: stable_sort_by_def)
next
  case (Cons x xs)
  then have IH: "stable_sort_by lt key xs = sort_key g xs" by simp
  have "insort_by lt key x (sort_key g xs) = insort_key g x (sort_key g xs)"
    using Cons.prems by (intro insort_by_eq_insort_key) simp
  with IH show ?case
    by (simp add: stable_sort_by_def sort_key_def)
qed

lemma sorted_wrt_filter_imp:
  "sorted_wrt R (filter P xs) \<Longrightarrow> sorted_wrt (\<lambda>a b. P a \<and> P b \<longrightarrow> R a b) xs"
  by (induction xs) (auto split: if_splits)

lemma sorted_wrt_conj:
  "sorted_wrt P xs \<Longrightarrow> sorted_wrt Q xs \<Longrightarrow> sorted_wrt (\<lambda>a b. P a b \<and> Q a b) xs"
  by (induction xs) auto

lemma stable_ties:
  assumes st: "\<And>c. filter (\<lambda>y. f y = c) ys = filter (\<lambda>y. f y = c) xs"
    and xs: "sorted_wrt R xs"
  shows "sorted_wrt (\<lambda>a b. f a = f b \<longrightarrow> R a b) ys"
proof -
  have "R (ys ! i) (ys ! j)" if "i < j" "j < length ys" "f (ys ! i) = f (ys ! j)" for i j
  proof -
    let ?P = "\<lambda>y. f y = f (ys ! i)"
    have "sorted_wrt R (filter ?P ys)"
      unfolding st by (intro sorted_wrt_filter xs)
    then have "sorted_wrt (\<lambda>a b. ?P a \<and> ?P b \<longrightarrow> R a b) ys"
      by (rule sorted_wrt_filter_imp)
    with that show ?thesis
      by (simp add: sorted_wrt_iff_nth_less)
  qed
  then show ?thesis
    by (simp add: sorted_wrt_iff_nth_less)
qed

lemma rev_sort_rev_props:
  fixes f :: "'a \<Rightarrow> 'b::linorder"
  defines "D \<equiv> \<lambda>xs. rev (sort_key f (rev xs))"
  shows "sorted_wrt (\<lambda>a b. f b \<le> f a) (D xs)"
    and "sorted_wrt R xs \<Longrightarrow> sorted_wrt (\<lambda>a b. f a = f b \<longrightarrow> R a b) (D xs)"
proof -
  have "sorted (map f (sort_key f (rev xs)))" by simp
  then have "sorted_wrt (\<lambda>a b. f a \<le> f b) (sort_key f (rev xs))"
    by (simp add: sorted_wrt_map)
  then show "sorted_wrt (\<lambda>a b. f b \<le> f a) (D xs)"
    by (simp add: D_def sorted_wrt_rev)
  have "filter (\<lambda>y. f y = c) (D xs) = filter (\<lambda>y. f y = c) xs" for c
    by (simp add: D_def rev_filter[symmetric] sort_key_stable)
  then show "sorted_wrt R xs \<Longrightarrow> sorted_wrt (\<lambda>a b. f a = f b \<longrightarrow> R a b) (D xs)"
    by (rule stable_ties)
qed

subsection \<open>Both libraries keep the contracts\<close>

lemma sort_contract_make_library: "sort_contract (make_library rnd)"
  unfolding sort_contract_def
proof (intro conjI allI impI)
  fix reverse and keys :: "fval list"
  show "mset (list_sort (make_library rnd) reverse keys) = mset [0..<length keys]"
    by (simp add: make_library_def insertion_sort_order_def mset_stable_sort_by)
next
  fix keys :: "fval list"
  assume nan: "NaN \<notin> set keys"
  let ?g = "\<lambda>i. rank (keys ! i)"
  let ?xs = "[0..<length keys]"
  have k: "keys ! i \<noteq> NaN" if "i < length keys" for i
    using nan that by (metis nth_mem)
  have "\<forall>y \<in> set (rev ?xs). \<forall>x \<in> set (rev ?xs). py_lt (keys ! y) (keys ! x) = (?g y < ?g x)"
    using k by (simp add: py_lt_rank)
  then have eq: "stable_sort_by py_lt (\<lambda>i. keys ! i) (rev ?xs) = sort_key ?g (rev ?xs)"
    by (rule stable_sort_by_eq_sort_key)
  let ?D = "rev (sort_key ?g (rev ?xs))"
  have ord: "list_sort (make_library rnd) True keys = ?D"
    by (simp add: make_library_def insertion_sort_order_def eq)
  have "mset ?D = mset ?xs" by simp
  then have "set ?D = set ?xs" by (rule mset_eq_setD)
  then have in_range: "\<forall>i \<in> set ?D. i < length keys" by simp
  have "sorted_wrt (\<lambda>a b. ?g b \<le> ?g a) ?D"
    by (rule rev_sort_rev_props(1))
  moreover have "sorted_wrt (\<lambda>a b. ?g a = ?g b \<longrightarrow> a < b) ?D"
    by (rule rev_sort_rev_props(2)) simp
  ultimately have "sorted_wrt (\<lambda>a b. ?g b \<le> ?g a \<and> (?g a = ?g b \<longrightarrow> a < b)) ?D"
    by (rule sorted_wrt_conj)
  then have "sorted_wrt (\<lambda>i j. py_le (keys ! j) (keys ! i) \<and> (keys ! i = keys ! j \<longrightarrow> i < j)) ?D"
  proof (rule sorted_wrt_mono_rel[rotated])
    fix i j
    assume "i \<in> set ?D" "j \<in> set ?D"
      and h: "?g j \<le> ?g i \<and> (?g i = ?g j \<longrightarrow> i < j)"
    with in_range have "keys ! i \<noteq> NaN" "keys ! j \<noteq> NaN" using k by auto
    with h show "py_le (keys ! j) (keys ! i) \<and> (keys ! i = keys ! j \<longrightarrow> i < j)"
      by (simp add: py_le_rank)
  qed
  then show "sorted_wrt (\<lambda>i j. py_le (keys ! j) (keys ! i) \<and> (keys ! i = keys ! j \<longrightarrow> i < j))
               (list_sort (make_library rnd) True keys)"
    unfolding ord .
qed

lemma argsort_contract_make_library: "argsort_contract (make_library rnd)"
  unfolding argsort_contract_def
proof (intro allI conjI)
  fix a :: "fval list"
  let ?g = "\<lambda>i. rank (a ! i)"
  show "mset (np_argsort (make_library rnd) a) = mset [0..<length a]"
    by (simp add: make_library_def insertion_argsort_def mset_stable_sort_by)
  have "stable_sort_by np_lt (\<lambda>i. a ! i) [0..<length a] = sort_key ?g [0..<length a]"
    by (rule stable_sort_by_eq_sort_key) (simp add: np_lt_rank)
  then have A: "np_argsort (make_library rnd) a = sort_key ?g [0..<length a]"
    by (simp add: make_library_def insertion_argsort_def)
  have "sorted (map ?g (sort_key ?g [0..<length a]))" by simp
  then have "sorted_wrt (\<lambda>i j. ?g i \<le> ?g j) (sort_key ?g [0..<length a])"
    by (simp add: sorted_wrt_map)
  then show "sorted_wrt (\<lambda>i j. \<not> np_lt (a ! j) (a ! i)) (np_argsort (make_library rnd) a)"
    unfolding A by (simp add: np_lt_rank not_less)
qed

lemma foldl_zero_products:
  assumes "rnd (Num 0) = Num 0" "\<forall>(x, y) \<in> set zs. x = 0 \<or> y = 0"
  shows "foldl (\<lambda>acc (x, y). rnd (exact_add acc (rnd (exact_mul (Num x) (Num y))))) (Num 0) zs = Num 0"
  using assms(2) by (induction zs) (auto simp: assms(1))

lemma seq_dot_zero:
  assumes "rnd (Num 0) = Num 0" "set v \<subseteq> {0}"
  shows "seq_dot rnd v w = Num 0" and "seq_dot rnd w v = Num 0"
proof -
  have "\<forall>(x, y) \<in> set (zip v w). x = 0 \<or> y = 0"
    using assms(2) by (auto dest: set_zip_leftD)
  then show "seq_dot rnd v w = Num 0"
    unfolding seq_dot_def by (rule foldl_zero_products[where rnd = rnd, OF assms(1)])
  have "\<forall>(x, y) \<in> set (zip w v). x = 0 \<or> y = 0"
    using assms(2) by (auto dest: set_zip_rightD)
  then show "seq_dot rnd w v = Num 0"
    unfolding seq_dot_def by (rule foldl_zero_products[where rnd = rnd, OF assms(1)])
qed

lemma zero_contract_make_library:
  assumes "rnd (Num 0) = Num 0" "rnd NaN = NaN" "rnd PInf = PInf" "rnd NInf = NInf"
  shows "zero_contract (make_library rnd)"
  unfolding zero_contract_def
proof (intro conjI allI impI)
  fix v w :: "real list"
  assume "set v \<subseteq> {0} \<and> length v = length w"
  then show "np_dot (make_library rnd) v w = Num 0" "np_dot (make_library rnd) w v = Num 0"
    by (simp_all add: make_library_def seq_dot_zero[where rnd = rnd, OF assms(1)])
next
  fix v :: "real list"
  assume "set v \<subseteq> {0}"
  then show "np_linalg_norm (make_library rnd) v = Num 0"
    by (simp add: make_library_def seq_dot_zero[where rnd = rnd, OF assms(1)] assms(1))
next
  fix x
  show "fl_mul (make_library rnd) (Num 0) x \<in> {Num 0, NaN}"
    by (cases x) (simp_all add: make_library_def assms signed_inf_def)
  show "fl_mul (make_library rnd) x (Num 0) \<in> {Num 0, NaN}"
    by (cases x) (simp_all add: make_library_def assms signed_inf_def)
next
  fix d
  show "fl_div (make_library rnd) d (Num 0) \<in> {NaN, PInf, NInf}"
    by (cases d) (simp_all add: make_library_def assms signed_inf_def)
  show "fl_div (make_library rnd) d NaN = NaN"
    by (cases d) (simp_all add: make_library_def assms)
next
  show "fl_div (make_library rnd) (Num 0) (Num 0) = NaN"
    by (simp add: make_library_def assms signed_inf_def)
qed

lemma zero_contract_reference: "zero_contract reference"
  unfolding reference_def by (rule zero_contract_make_library) simp_all


lemma sort_contract_reference: "sort_contract reference"
  unfolding reference_def by (rule sort_contract_make_library)

lemma argsort_contract_reference: "argsort_contract reference"
  unfolding reference_def by (rule argsort_contract_make_library)

lemmas reference_eval =
  reference_def make_library_def seq_dot_def insertion_argsort_def insertion_sort_order_def
  stable_sort_by_def np_lt_def signed_inf_def

subsection \<open>Rounding to binary64\<close>

lemma round_even_near:
  assumes "\<bar>y - real_of_int m\<bar> < 1 / 2"
  shows "round_even y = m"
proof (cases "real_of_int m \<le> y")
  case True
  with assms have "\<lfloor>y\<rfloor> = m" by (intro floor_unique) auto
  with assms True show ?thesis by (simp add: round_even_def Let_def)
next
  case False
  with assms have f: "\<lfloor>y\<rfloor> = m - 1" by (intro floor_unique) auto
  from assms False have "1 / 2 < y - real_of_int (m - 1)" by auto
  with f show ?thesis by (simp add: round_even_def Let_def)
qed

lemma binary64_normal:
  assumes "2 powr real_of_int e \<le> \<bar>x\<bar>" "\<bar>x\<bar> < 2 powr real_of_int (e + 1)" "- 1022 \<le> e"
    and "\<bar>x / 2 powr real_of_int (e - 52) - real_of_int m\<bar> < 1 / 2"
    and "\<bar>real_of_int m * 2 powr real_of_int (e - 52)\<bar> < 2 ^ 1024"
  shows "binary64 x = Num (real_of_int m * 2 powr real_of_int (e - 52))"
proof -
  have pos: "0 < \<bar>x\<bar>"
    using assms(1) by (smt (verit) powr_gt_zero)
  then have nz: "x \<noteq> 0" by simp
  have fl: "\<lfloor>log 2 \<bar>x\<bar>\<rfloor> = e"
    using assms(1,2) pos by (simp add: floor_log_eq_powr_iff)
  have mx: "max e (- 1022) = e" using assms(3) by simp
  have r: "round_even (x / 2 powr real_of_int (e - 52)) = m"
    using assms(4) by (rule round_even_near)
  have nb: "\<not> 2 ^ 1024 \<le> \<bar>real_of_int m * 2 powr real_of_int (e - 52)\<bar>"
    using assms(5) by (simp only: not_le)
  show ?thesis
    unfolding binary64_def Let_def fl mx r by (simp only: nz nb if_False)
qed

lemma binary64_1: "binary64 1 = Num 1"
  using binary64_normal[of 0 1 "2 ^ 52"] by (simp add: powr_minus)

lemma binary64_64: "binary64 64 = Num 64"
  using binary64_normal[of 6 64 "2 ^ 52"] by (simp add: powr_minus)

lemma binary64_65: "binary64 65 = Num 65"
  using binary64_normal[of 6 65 "65 * 2 ^ 46"] by (simp add: powr_minus)


lemma binary64_sqrt_65: "binary64 (sqrt 65) = Num (4538647623875280 / 2 ^ 49)"
proof -
  have lo: "8 < sqrt 65" by (rule real_less_rsqrt) simp
  have hi: "sqrt 65 < 16" by (rule real_less_lsqrt) simp_all
  have a: "(4538647623875280 - 1 / 2) / 2 ^ 49 < sqrt 65"
    by (rule real_less_rsqrt) (simp add: power_divide)
  have b: "sqrt 65 < (4538647623875280 + 1 / 2) / 2 ^ 49"
    by (rule real_less_lsqrt) (simp_all add: power_divide)
  have u: "sqrt 65 / 2 powr real_of_int (3 - 52) = sqrt 65 * 2 ^ 49"
    by (simp add: powr_minus field_simps)
  have c1: "sqrt 65 * 2 ^ 49 - real_of_int 4538647623875280 < 1 / 2"
    using b by (simp add: field_simps)
  have c2: "- (sqrt 65 * 2 ^ 49 - real_of_int 4538647623875280) < 1 / 2"
    using a by (simp add: field_simps)
  have c: "\<bar>sqrt 65 / 2 powr real_of_int (3 - 52) - real_of_int 4538647623875280\<bar> < 1 / 2"
    unfolding u abs_less_iff using c1 c2 by (rule conjI)
  show ?thesis
    using binary64_normal[of 3 "sqrt 65" 4538647623875280, OF _ _ _ c] lo hi
    by (simp add: powr_minus field_simps)
qed

lemma binary64_norm_product:
  "binary64 (4538647623875280 / 2 ^ 49 * (4538647623875280 / 2 ^ 49)) = Num (4573968371548159 / 2 ^ 46)"
  using binary64_normal[of 6 "4538647623875280 / 2 ^ 49 * (4538647623875280 / 2 ^ 49)" 4573968371548159]
  by (simp add: powr_minus)

lemma binary64_quotient:
  "binary64 (65 / (4573968371548159 / 2 ^ 46)) = Num (1 + 1 / 2 ^ 52)"
  using binary64_normal[of 0 "65 / (4573968371548159 / 2 ^ 46)" 4503599627370497]
  by (simp add: powr_minus)

lemma ieee_dot_1_8: "np_dot ieee [1, 8] [1, 8] = Num 65"
  by (simp add: ieee_def make_library_def seq_dot_def binary64_1 binary64_64 binary64_65)

lemma ieee_norm_1_8: "np_linalg_norm ieee [1, 8] = Num (4538647623875280 / 2 ^ 49)"
  using ieee_dot_1_8 binary64_sqrt_65
  by (simp add: ieee_def make_library_def)

lemma ieee_cosine_1_8: "cosine_value ieee [1, 8] [1, 8] = Num (1 + 1 / 2 ^ 52)"
proof -
  have "fl_mul ieee (Num (4538647623875280 / 2 ^ 49)) (Num (4538647623875280 / 2 ^ 49))
          = Num (4573968371548159 / 2 ^ 46)"
    using binary64_norm_product by (simp add: ieee_def make_library_def)
  moreover have "fl_div ieee (Num 65) (Num (4573968371548159 / 2 ^ 46)) = Num (1 + 1 / 2 ^ 52)"
    using binary64_quotient by (simp add: ieee_def make_library_def)
  ultimately show ?thesis
    unfolding cosine_value_def ieee_dot_1_8 ieee_norm_1_8 by simp
qed


lemma binary64_0: "binary64 0 = Num 0"
  by (simp add: binary64_def)

lemma zero_contract_ieee: "zero_contract ieee"
  unfolding ieee_def by (rule zero_contract_make_library) (simp_all add: binary64_0)

section \<open>Similarity engine\<close>

text \<open>
  C5, as the code has it. \<open>cosine_similarity\<close> has no guard on the norms and raises
  nothing for inputs of equal length. For every library that keeps the zero contract:
  when the norm of either input is zero the result is nan or an infinity, and when
  either input is a zero vector the result is nan. For all inputs of equal length the
  result is a float; no bound on it is stated, since rounding can put it outside
  \<open>[-1, 1]\<close>.
\<close>

theorem cosine_similarity_no_guard:
  "(length vec1 = length vec2 \<longrightarrow> (\<exists>s. cosine_similarity L vec1 vec2 = Inr s)) \<and>
   (zero_contract L \<and> length vec1 = length vec2 \<and>
      (np_linalg_norm L vec1 = Num 0 \<or> np_linalg_norm L vec2 = Num 0)
      \<longrightarrow> cosine_similarity L vec1 vec2 \<in> {Inr NaN, Inr PInf, Inr NInf}) \<and>
   (zero_contract L \<and> length vec1 = length vec2 \<and> (set vec1 \<subseteq> {0} \<or> set vec2 \<subseteq> {0})
      \<longrightarrow> cosine_similarity L vec1 vec2 = Inr NaN)"
proof (intro conjI impI)
  assume "length vec1 = length vec2"
  then show "\<exists>s. cosine_similarity L vec1 vec2 = Inr s"
    by (simp add: cosine_similarity_def)
next
  assume h: "zero_contract L \<and> length vec1 = length vec2 \<and>
      (np_linalg_norm L vec1 = Num 0 \<or> np_linalg_norm L vec2 = Num 0)"
  then have z: "zero_contract L" by simp
  from h z have "fl_mul L (np_linalg_norm L vec1) (np_linalg_norm L vec2) \<in> {Num 0, NaN}"
    unfolding zero_contract_def by metis
  moreover have "fl_div L d (Num 0) \<in> {NaN, PInf, NInf}" "fl_div L d NaN = NaN" for d
    using z unfolding zero_contract_def by blast+
  ultimately have "cosine_value L vec1 vec2 \<in> {NaN, PInf, NInf}"
    unfolding cosine_value_def by (metis insertE insertI1 insert_commute singletonD)
  with h show "cosine_similarity L vec1 vec2 \<in> {Inr NaN, Inr PInf, Inr NInf}"
    by (auto simp: cosine_similarity_def)
next
  assume h: "zero_contract L \<and> length vec1 = length vec2 \<and> (set vec1 \<subseteq> {0} \<or> set vec2 \<subseteq> {0})"
  then have z: "zero_contract L" and len: "length vec1 = length vec2" by simp_all
  have d: "np_dot L vec1 vec2 = Num 0"
    using h z unfolding zero_contract_def by metis
  have "np_linalg_norm L vec1 = Num 0 \<or> np_linalg_norm L vec2 = Num 0"
    using h z unfolding zero_contract_def by metis
  with z have "fl_mul L (np_linalg_norm L vec1) (np_linalg_norm L vec2) \<in> {Num 0, NaN}"
    unfolding zero_contract_def by metis
  moreover have "fl_div L (Num 0) (Num 0) = NaN" "fl_div L (Num 0) NaN = NaN"
    using z unfolding zero_contract_def by blast+
  ultimately have "cosine_value L vec1 vec2 = NaN"
    unfolding cosine_value_def d by auto
  with len show "cosine_similarity L vec1 vec2 = Inr NaN"
    by (simp add: cosine_similarity_def)
qed

theorem cosine_similarity_no_guard_witness:
  "zero_contract ieee \<and> np_linalg_norm ieee [0, 0] = Num 0 \<and>
   cosine_similarity ieee [0, 0] [3, 4] = Inr NaN \<and>
   (\<exists>s. cosine_similarity ieee [3, 4] [1, 2] = Inr s)"
proof -
  have n: "np_linalg_norm ieee [0, 0] = Num 0"
    by (simp add: ieee_def make_library_def seq_dot_def binary64_0)
  show ?thesis
    using cosine_similarity_no_guard[of "[0, 0]" "[3, 4]" ieee]
      cosine_similarity_no_guard[of "[3, 4]" "[1, 2]" ieee] zero_contract_ieee n
    by simp
qed

text \<open>
  In binary64 the zero vector has norm zero and its similarity to \<open>[1, 0]\<close> is nan, not
  an error; and the similarity of \<open>[1, 8]\<close> to itself is \<open>1 + 2 ^ (- 52)\<close>, the float
  next above 1: the norm is \<open>sqrt 65\<close> rounded, its square rounds to the float next below
  65, and 65 divided by that rounds up.
\<close>

theorem cosine_similarity_zero_norm_counterexample:
  "np_linalg_norm ieee [0, 0] = Num 0 \<and>
   cosine_similarity ieee [0, 0] [1, 0] = Inr NaN \<and>
   cosine_similarity ieee [1, 8] [1, 8] = Inr (Num (1 + 1 / 2 ^ 52)) \<and>
   \<not> py_le (Num (1 + 1 / 2 ^ 52)) (Num 1)"
proof -
  have "np_linalg_norm ieee [0, 0] = Num 0"
    by (simp add: ieee_def make_library_def seq_dot_def binary64_0)
  moreover have "cosine_similarity ieee [0, 0] [1, 0] = Inr NaN"
    by (simp add: cosine_similarity_def cosine_value_def ieee_def make_library_def seq_dot_def
        binary64_0 binary64_1 signed_inf_def)
  moreover have "cosine_similarity ieee [1, 8] [1, 8] = Inr (Num (1 + 1 / 2 ^ 52))"
    using ieee_cosine_1_8 by (simp add: cosine_similarity_def)
  moreover have "\<not> py_le (Num (1 + 1 / 2 ^ 52)) (Num 1)"
    by (simp add: py_le_def)
  ultimately show ?thesis by simp
qed

section \<open>Boundary selector\<close>








section \<open>Retriever\<close>

subsection \<open>The retrievers in terms of the two sorts\<close>

lemma collect_map_Inr:
  "\<forall>x \<in> set xs. g x = Inr (h x) \<Longrightarrow> collect (map g xs) = Inr (map h xs)"
  by (induction xs) simp_all

lemma lookup_in_range:
  "\<forall>i \<in> set idxs. i < length xs \<Longrightarrow> collect (map (py_get xs) idxs) = Inr (map ((!) xs) idxs)"
  by (intro collect_map_Inr) (simp add: py_get_def)

lemma similarities_of_lengths:
  assumes "\<forall>e \<in> set embeddings. length e = length q"
  shows "similarities_of L q embeddings = Inr (map (cosine_value L q) embeddings)"
  unfolding similarities_of_def
  using assms by (intro collect_map_Inr) (simp add: cosine_similarity_def)

lemma sort_contract_mset:
  "sort_contract L \<Longrightarrow> mset (list_sort L reverse keys) = mset [0..<length keys]"
  by (simp add: sort_contract_def)


lemma argsort_contract_mset:
  "argsort_contract L \<Longrightarrow> mset (np_argsort L a) = mset [0..<length a]"
  by (simp add: argsort_contract_def)


lemma sort_order_range:
  assumes "sort_contract L"
  shows "set (list_sort L reverse keys) = {..<length keys}"
    and "length (list_sort L reverse keys) = length keys"
proof -
  have m: "mset (list_sort L reverse keys) = mset [0..<length keys]"
    using assms by (rule sort_contract_mset)
  have "set (list_sort L reverse keys) = set [0..<length keys]"
    using m by (rule mset_eq_setD)
  then show "set (list_sort L reverse keys) = {..<length keys}"
    by (simp add: lessThan_atLeast0)
  from mset_eq_length[OF m] show "length (list_sort L reverse keys) = length keys" by simp
qed

lemma argsort_range:
  assumes "argsort_contract L"
  shows "set (np_argsort L a) = {..<length a}"
    and "length (np_argsort L a) = length a"
proof -
  have m: "mset (np_argsort L a) = mset [0..<length a]"
    using assms by (rule argsort_contract_mset)
  have "set (np_argsort L a) = set [0..<length a]"
    using m by (rule mset_eq_setD)
  then show "set (np_argsort L a) = {..<length a}"
    by (simp add: lessThan_atLeast0)
  from mset_eq_length[OF m] show "length (np_argsort L a) = length a" by simp
qed

lemma py_list_sort_nth:
  assumes "sort_contract L" "\<forall>i < length xs. xs ! i = f i"
  shows "py_list_sort L key reverse xs = map f (list_sort L reverse (map key xs))"
proof -
  have "xs ! i = f i" if "i \<in> set (list_sort L reverse (map key xs))" for i
  proof -
    from that have "i < length xs"
      unfolding sort_order_range(1)[OF assms(1)] by simp
    with assms(2) show ?thesis by simp
  qed
  then show ?thesis
    unfolding py_list_sort_def by (intro map_cong refl)
qed

lemma top_indices_sort_eq:
  assumes "sort_contract L"
  shows "top_indices_sort L sims k = take (slice_index k (length sims)) (list_sort L True sims)"
proof -
  have "py_list_sort L snd True (enumerate 0 sims) =
          map (\<lambda>i. (i, sims ! i)) (list_sort L True (map snd (enumerate 0 sims)))"
    using assms by (rule py_list_sort_nth) (simp add: nth_enumerate_eq)
  then have D: "py_list_sort L snd True (enumerate 0 sims) = map (\<lambda>i. (i, sims ! i)) (list_sort L True sims)"
    by (simp add: map_snd_enumerate)
  show ?thesis
    unfolding top_indices_sort_def D py_slice_to_def
    by (simp add: sort_order_range(2)[OF assms] take_map comp_def)
qed

lemma top_indices_argsort_eq:
  assumes "argsort_contract L"
  shows "top_indices_argsort L sims k = rev (drop (slice_index (- k) (length sims)) (np_argsort L sims))"
  by (simp add: top_indices_argsort_def py_slice_from_def argsort_range(2)[OF assms])




lemma semantic_search_eq:
  assumes "sort_contract L" "\<forall>e \<in> set embeddings. length e = length (ce query)"
    and "length text_chunks = length embeddings"
  shows "semantic_search L ce query text_chunks embeddings k =
           Inr (map ((!) text_chunks)
             (take (slice_index k (length embeddings))
                (list_sort L True (map (cosine_value L (ce query)) embeddings))))"
proof -
  let ?sims = "map (cosine_value L (ce query)) embeddings"
  have "set (take (slice_index k (length embeddings)) (list_sort L True ?sims))
          \<subseteq> set (list_sort L True ?sims)"
    by (rule set_take_subset)
  then have "\<forall>i \<in> set (take (slice_index k (length embeddings)) (list_sort L True ?sims)).
      i < length text_chunks"
    using sort_order_range(1)[OF assms(1), of True ?sims] assms(3) by auto
  then show ?thesis
    unfolding semantic_search_def similarities_of_lengths[OF assms(2)]
    by (simp add: top_indices_sort_eq[OF assms(1)] lookup_in_range)
qed

lemma semantic_search_argsort_eq:
  assumes "argsort_contract L" "\<forall>e \<in> set embeddings. length e = length (ce query)"
    and "length text_chunks = length embeddings"
  shows "semantic_search_argsort L ce query text_chunks embeddings k =
           Inr (map ((!) text_chunks)
             (rev (drop (slice_index (- k) (length embeddings))
                (np_argsort L (map (cosine_value L (ce query)) embeddings)))))"
proof -
  let ?sims = "map (cosine_value L (ce query)) embeddings"
  have "set (drop (slice_index (- k) (length embeddings)) (np_argsort L ?sims))
          \<subseteq> set (np_argsort L ?sims)"
    by (rule set_drop_subset)
  then have "\<forall>i \<in> set (rev (drop (slice_index (- k) (length embeddings)) (np_argsort L ?sims))).
      i < length text_chunks"
    using argsort_range(1)[OF assms(1), of ?sims] assms(3) by auto
  then show ?thesis
    unfolding semantic_search_argsort_def similarities_of_lengths[OF assms(2)]
    by (simp add: top_indices_argsort_eq[OF assms(1)] lookup_in_range)
qed

subsection \<open>Ranking of the two retrievers\<close>


lemmas search_eval =
  semantic_search_def semantic_search_argsort_def similarities_of_def cosine_similarity_def
  cosine_value_def top_indices_sort_def top_indices_argsort_def py_list_sort_def
  py_slice_to_def py_slice_from_def slice_index_def py_get_def enumerate_eq_zip upt_rec



subsection \<open>Empty and small corpora\<close>

text \<open>
  C7, as the code has it. On an empty chunk list both retrievers return the empty list
  and raise nothing. With one embedding per chunk, each of the query embedding's
  length, and \<open>0 < len(chunks) < k\<close>, both succeed and return every chunk once.
\<close>

theorem search_corpus_size:
  "(sort_contract L \<longrightarrow> semantic_search L ce query [] [] k = Inr []) \<and>
   (argsort_contract L \<longrightarrow> semantic_search_argsort L ce query [] [] k = Inr []) \<and>
   (sort_contract L \<and> argsort_contract L \<and>
    (\<forall>e \<in> set embeddings. length e = length (ce query)) \<and>
    length text_chunks = length embeddings \<and> 0 < length text_chunks \<and> int (length text_chunks) < k
    \<longrightarrow> (\<exists>idxs. semantic_search L ce query text_chunks embeddings k = Inr (map ((!) text_chunks) idxs) \<and>
               mset idxs = mset [0..<length text_chunks]) \<and>
        (\<exists>idxs. semantic_search_argsort L ce query text_chunks embeddings k =
                 Inr (map ((!) text_chunks) idxs) \<and>
               mset idxs = mset [0..<length text_chunks]))"
proof (intro conjI impI)
  assume c: "sort_contract L"
  have "semantic_search L ce query [] [] k = Inr (map ((!) []) (take (slice_index k (length ([] :: real list list)))
      (list_sort L True (map (cosine_value L (ce query)) []))))"
    using c by (intro semantic_search_eq) simp_all
  then show "semantic_search L ce query [] [] k = Inr []"
    by (simp add: slice_index_def)
next
  assume c: "argsort_contract L"
  have "length (np_argsort L []) = 0"
    using argsort_range(2)[OF c, of "[]"] by simp
  then have "np_argsort L [] = []" by simp
  then show "semantic_search_argsort L ce query [] [] k = Inr []"
    by (simp add: semantic_search_argsort_def similarities_of_def top_indices_argsort_def
        py_slice_from_def)
next
  assume h: "sort_contract L \<and> argsort_contract L \<and>
    (\<forall>e \<in> set embeddings. length e = length (ce query)) \<and>
    length text_chunks = length embeddings \<and> 0 < length text_chunks \<and> int (length text_chunks) < k"
  let ?sims = "map (cosine_value L (ce query)) embeddings"
  from h have c: "sort_contract L" "argsort_contract L"
    and lens: "\<forall>e \<in> set embeddings. length e = length (ce query)"
    and n: "length text_chunks = length embeddings" by simp_all
  from h have "length embeddings \<le> nat k" "0 < k" by linarith+
  then have k: "slice_index k (length embeddings) = length embeddings"
    "slice_index (- k) (length embeddings) = 0"
    by (simp_all add: slice_index_def)
  have "length (list_sort L True ?sims) = length embeddings"
    using sort_order_range(2)[OF c(1), of True ?sims] by simp
  then have "semantic_search L ce query text_chunks embeddings k
               = Inr (map ((!) text_chunks) (list_sort L True ?sims))"
    using semantic_search_eq[where L = L and ce = ce and query = query and k = k, OF c(1) lens n] k(1)
    by simp
  moreover have "mset (list_sort L True ?sims) = mset [0..<length text_chunks]"
    using sort_contract_mset[OF c(1), of True ?sims] n by simp
  ultimately show "\<exists>idxs. semantic_search L ce query text_chunks embeddings k =
      Inr (map ((!) text_chunks) idxs) \<and> mset idxs = mset [0..<length text_chunks]"
    by blast
  have "semantic_search_argsort L ce query text_chunks embeddings k
               = Inr (map ((!) text_chunks) (rev (np_argsort L ?sims)))"
    using semantic_search_argsort_eq[where L = L and ce = ce and query = query and k = k, OF c(2) lens n] k(2)
    by simp
  moreover have "mset (rev (np_argsort L ?sims)) = mset [0..<length text_chunks]"
    using argsort_contract_mset[OF c(2), of ?sims] n by simp
  ultimately show "\<exists>idxs. semantic_search_argsort L ce query text_chunks embeddings k =
      Inr (map ((!) text_chunks) idxs) \<and> mset idxs = mset [0..<length text_chunks]"
    by blast
qed

theorem search_corpus_size_witness:
  "sort_contract reference \<and> argsort_contract reference \<and>
   semantic_search reference (\<lambda>_. [1, 0]) ''q'' [''a'', ''b''] [ [0, 0], [1, 0] ] 5 = Inr [''a'', ''b''] \<and>
   semantic_search_argsort reference (\<lambda>_. [1, 0]) ''q'' [''a'', ''b''] [ [0, 1], [1, 0] ] 5
     = Inr [''b'', ''a''] \<and>
   semantic_search reference (\<lambda>_. [1, 0]) ''q'' [] [] 5 = Inr []"
proof -
  have "semantic_search reference (\<lambda>_. [1, 0]) ''q'' [''a'', ''b''] [ [0, 0], [1, 0] ] 5 = Inr [''a'', ''b'']"
    by (simp add: search_eval reference_eval)
  moreover have "semantic_search_argsort reference (\<lambda>_. [1, 0]) ''q'' [''a'', ''b''] [ [0, 1], [1, 0] ] 5
     = Inr [''b'', ''a'']"
    by (simp add: search_eval reference_eval)
  ultimately show ?thesis
    using search_corpus_size[of reference "\<lambda>_. [1, 0]" "''q''" 5 "[ [0, 0], [1, 0] ]" "[''a'', ''b'']"]
      sort_contract_reference argsort_contract_reference
    by simp
qed

text \<open>A search in an empty corpus returns the empty list.\<close>

theorem search_empty_corpus_counterexample:
  "semantic_search reference (\<lambda>_. [1, 0]) ''query'' [] [] 5 = Inr [] \<and>
   semantic_search_argsort reference (\<lambda>_. [1, 0]) ''query'' [] [] 5 = Inr []"
  by (simp add: search_eval reference_eval)

subsection \<open>Header-augmented retriever\<close>







end
